theory Spec2Isabelle
  imports Complex_Main "HOL-Library.AList"
begin

section \<open>Python values used by app\_azure.py\<close>

text \<open>
  A Python \<open>str\<close> is modelled as a \<open>string\<close> whose characters are the code points
  below 256. An insertion-ordered \<open>dict\<close> is an association list with distinct keys:
  \<open>d[k] = v\<close> is \<open>AList.update\<close> (overwrite in place, or append at the end),
  \<open>d.get(k)\<close> is \<open>map_of\<close>, \<open>list(d.keys())\<close> is \<open>map fst\<close>.
\<close>

datatype py_error = KeyError | IndexError | ZeroDivisionError | ExternalError

type_synonym ('k, 'v) dict = "('k \<times> 'v) list"

definition keys :: "('k, 'v) dict \<Rightarrow> 'k list" where
  "keys d = map fst d"

definition dict_get :: "('k, 'v) dict \<Rightarrow> 'k \<Rightarrow> 'v option" where
  "dict_get d k = map_of d k"


definition dict_set :: "'k \<Rightarrow> 'v \<Rightarrow> ('k, 'v) dict \<Rightarrow> ('k, 'v) dict" where
  "dict_set k v d = AList.update k v d"

text \<open>\<open>del d[k]\<close> raises KeyError when the key is absent.\<close>

definition dict_del :: "'k \<Rightarrow> ('k, 'v) dict \<Rightarrow> py_error + ('k, 'v) dict" where
  "dict_del k d = (if k \<in> set (keys d) then Inr (AList.delete k d) else Inl KeyError)"

text \<open>\<open>for key in ks: del d[key]\<close>\<close>

fun dict_del_all :: "'k list \<Rightarrow> ('k, 'v) dict \<Rightarrow> py_error + ('k, 'v) dict" where
  "dict_del_all [] d = Inr d"
| "dict_del_all (k # ks) d =
     (case dict_del k d of Inl e \<Rightarrow> Inl e | Inr d' \<Rightarrow> dict_del_all ks d')"

text \<open>\<open>xs[:-n]\<close> for a positive \<open>n\<close>: everything but the last \<open>n\<close> elements.\<close>

definition all_but_last :: "nat \<Rightarrow> 'a list \<Rightarrow> 'a list" where
  "all_but_last n xs = take (length xs - n) xs"

text \<open>\<open>str(n)\<close> of a non-negative integer: its decimal digits.\<close>

definition digit_char :: "nat \<Rightarrow> char" where
  "digit_char d = char_of (48 + d)"

function str_nat :: "nat \<Rightarrow> string" where
  "str_nat n = (if n < 10 then [digit_char n] else str_nat (n div 10) @ [digit_char (n mod 10)])"
  by pat_completeness auto
termination
  by (relation "measure id") auto

declare str_nat.simps [simp del]

section \<open>GenieBot: the result store and the chart store\<close>

text \<open>
  The two counters start at 0 and are only ever incremented, so they are naturals.
  The stored result (a dict built by the Genie client) is opaque to the store.
\<close>

record 'r GenieBot =
  query_results :: "(string, 'r) dict"
  result_counter :: nat
  chart_images :: "(string, string) dict"
  chart_counter :: nat

definition GenieBot_init :: "'r GenieBot" where
  "GenieBot_init =
     \<lparr>query_results = [], result_counter = 0, chart_images = [], chart_counter = 0\<rparr>"

definition result_id_of :: "nat \<Rightarrow> string" where
  "result_id_of c = ''result_'' @ str_nat c"

definition chart_id_of :: "nat \<Rightarrow> string" where
  "chart_id_of c = ''chart_'' @ str_nat c"

definition store_result :: "'r \<Rightarrow> 'r GenieBot \<Rightarrow> py_error + (string \<times> 'r GenieBot)" where
  "store_result result self =
     (let c = result_counter self + 1;
          result_id = result_id_of c;
          d = dict_set result_id result (query_results self)
      in if length d > 50
         then (case dict_del_all (all_but_last 50 (keys d)) d of
                 Inl e \<Rightarrow> Inl e
               | Inr d' \<Rightarrow> Inr (result_id, self\<lparr>query_results := d', result_counter := c\<rparr>))
         else Inr (result_id, self\<lparr>query_results := d, result_counter := c\<rparr>))"

definition store_chart :: "string \<Rightarrow> 'r GenieBot \<Rightarrow> py_error + (string \<times> 'r GenieBot)" where
  "store_chart chart_base64 self =
     (let c = chart_counter self + 1;
          chart_id = chart_id_of c;
          d = dict_set chart_id chart_base64 (chart_images self)
      in if length d > 100
         then (case dict_del_all (all_but_last 100 (keys d)) d of
                 Inl e \<Rightarrow> Inl e
               | Inr d' \<Rightarrow> Inr (chart_id, self\<lparr>chart_images := d', chart_counter := c\<rparr>))
         else Inr (chart_id, self\<lparr>chart_images := d, chart_counter := c\<rparr>))"

definition get_chart :: "'r GenieBot \<Rightarrow> string \<Rightarrow> string option" where
  "get_chart self chart_id = dict_get (chart_images self) chart_id"

text \<open>\<open>BOT.query_results.get(result_id)\<close>, as the handlers read a stored result.\<close>

definition get_result :: "'r GenieBot \<Rightarrow> string \<Rightarrow> 'r option" where
  "get_result self result_id = dict_get (query_results self) result_id"

text \<open>A process lifetime: any interleaving of puts on the two stores, from the initial bot.
  The run returns the IDs issued, in order.\<close>

datatype 'r put = StoreResult 'r | StoreChart string

fun run_puts :: "'r put list \<Rightarrow> 'r GenieBot \<Rightarrow> py_error + (string list \<times> 'r GenieBot)" where
  "run_puts [] self = Inr ([], self)"
| "run_puts (StoreResult r # ps) self =
     (case store_result r self of
        Inl e \<Rightarrow> Inl e
      | Inr (i, self') \<Rightarrow>
          (case run_puts ps self' of Inl e \<Rightarrow> Inl e | Inr (ids, self'') \<Rightarrow> Inr (i # ids, self'')))"
| "run_puts (StoreChart c # ps) self =
     (case store_chart c self of
        Inl e \<Rightarrow> Inl e
      | Inr (i, self') \<Rightarrow>
          (case run_puts ps self' of Inl e \<Rightarrow> Inl e | Inr (ids, self'') \<Rightarrow> Inr (i # ids, self'')))"

section \<open>Strings\<close>

definition newline :: char where
  "newline = CHR 0x0A"

text \<open>\<open>str.isspace\<close> on the code points below 256; the class \<open>\s\<close> of \<open>re\<close> is the same set.\<close>

definition is_space :: "char \<Rightarrow> bool" where
  "is_space c = ((of_char c :: nat) \<in> {9, 10, 11, 12, 13, 28, 29, 30, 31, 32, 133, 160})"

definition strip :: "string \<Rightarrow> string" where
  "strip s = rev (dropWhile is_space (rev (dropWhile is_space s)))"

text \<open>\<open>str.lower\<close> on the code points below 256: A-Z, and the accented capitals
  0xC0-0xDE except the multiplication sign 0xD7, move up by 32.\<close>

definition lower_char :: "char \<Rightarrow> char" where
  "lower_char c =
     (let n = (of_char c :: nat)
      in if (65 \<le> n \<and> n \<le> 90) \<or> (192 \<le> n \<and> n \<le> 222 \<and> n \<noteq> 215)
         then char_of (n + 32) else c)"

definition lower :: "string \<Rightarrow> string" where
  "lower s = map lower_char s"

text \<open>\<open>s.split(c)\<close>: never empty.\<close>

fun py_split :: "char \<Rightarrow> string \<Rightarrow> string list" where
  "py_split c [] = [[]]"
| "py_split c (x # xs) =
     (if x = c then [] # py_split c xs
      else (case py_split c xs of [] \<Rightarrow> [[x]] | w # ws \<Rightarrow> (x # w) # ws))"

text \<open>\<open>s.split(c, 1)\<close> when \<open>c\<close> occurs in \<open>s\<close>: the text before the first \<open>c\<close> and
  the text after it.\<close>

definition split_once :: "char \<Rightarrow> string \<Rightarrow> string \<times> string" where
  "split_once c s = (takeWhile (\<lambda>x. x \<noteq> c) s, drop 1 (dropWhile (\<lambda>x. x \<noteq> c) s))"

section \<open>The regular expressions of \<open>re\<close> that the parser uses\<close>

text \<open>
  A backtracking matcher: \<open>rmatch\<close> lists, in the order in which \<open>re\<close> tries them, the
  ways a pattern can match a prefix of the text, each as the text left over and the groups
  captured. \<open>re.search\<close> takes the first way at the leftmost position that has one.
  \<open>Star\<close> is the greedy \<open>*\<close>, \<open>LazyStar\<close> is \<open>*?\<close>; \<open>r+\<close> is \<open>Cat r (Star r)\<close> and
  \<open>r+?\<close> is \<open>Cat r (LazyStar r)\<close>. \<open>Ahead\<close> is the lookahead \<open>(?=r)\<close> and \<open>Eos\<close> is
  \<open>$\<close> without MULTILINE. An iteration of a star that consumes nothing is not repeated.
\<close>

datatype regex =
    Chr char
  | Dot
  | Space
  | Eps
  | Eos
  | Cat regex regex
  | Alt regex regex
  | Star regex
  | LazyStar regex
  | Group nat regex
  | Ahead regex

record flags =
  ignorecase :: bool
  dotall :: bool

type_synonym caps = "(nat \<times> string) list"

definition chr_eq :: "flags \<Rightarrow> char \<Rightarrow> char \<Rightarrow> bool" where
  "chr_eq fl p c = (if ignorecase fl then lower_char p = lower_char c else p = c)"

fun rmatch :: "flags \<Rightarrow> regex \<Rightarrow> string \<Rightarrow> (string \<times> caps) list" where
  "rmatch fl (Chr p) s =
     (case s of [] \<Rightarrow> [] | c # cs \<Rightarrow> if chr_eq fl p c then [(cs, [])] else [])"
| "rmatch fl Dot s =
     (case s of [] \<Rightarrow> [] | c # cs \<Rightarrow> if dotall fl \<or> c \<noteq> newline then [(cs, [])] else [])"
| "rmatch fl Space s =
     (case s of [] \<Rightarrow> [] | c # cs \<Rightarrow> if is_space c then [(cs, [])] else [])"
| "rmatch fl Eps s = [(s, [])]"
| "rmatch fl Eos s = (if s = [] \<or> s = [newline] then [(s, [])] else [])"
| "rmatch fl (Cat r1 r2) s =
     concat (map (\<lambda>(s1, c1). map (\<lambda>(s2, c2). (s2, c1 @ c2)) (rmatch fl r2 s1))
                 (rmatch fl r1 s))"
| "rmatch fl (Alt r1 r2) s = rmatch fl r1 s @ rmatch fl r2 s"
| "rmatch fl (Star r) s =
     concat (map (\<lambda>(s1, c1). if length s1 < length s
                               then map (\<lambda>(s2, c2). (s2, c1 @ c2)) (rmatch fl (Star r) s1)
                               else [])
                 (rmatch fl r s)) @ [(s, [])]"
| "rmatch fl (LazyStar r) s =
     (s, []) #
     concat (map (\<lambda>(s1, c1). if length s1 < length s
                               then map (\<lambda>(s2, c2). (s2, c1 @ c2)) (rmatch fl (LazyStar r) s1)
                               else [])
                 (rmatch fl r s))"
| "rmatch fl (Group n r) s =
     map (\<lambda>(s1, c1). (s1, c1 @ [(n, take (length s - length s1) s)])) (rmatch fl r s)"
| "rmatch fl (Ahead r) s = (case rmatch fl r s of [] \<Rightarrow> [] | (s1, c1) # _ \<Rightarrow> [(s, c1)])"

declare rmatch.simps [simp del]

text \<open>A literal word, and an alternation of several patterns.\<close>

fun lits :: "string \<Rightarrow> regex" where
  "lits [] = Eps"
| "lits (c # cs) = Cat (Chr c) (lits cs)"

fun alts :: "regex list \<Rightarrow> regex" where
  "alts [] = Eps"
| "alts [r] = r"
| "alts (r # rs) = Alt r (alts rs)"

text \<open>A match object: the text before the match, the groups, the text after the match.\<close>

record re_match =
  m_pre :: string
  m_groups :: caps
  m_post :: string

fun search_from :: "flags \<Rightarrow> regex \<Rightarrow> string \<Rightarrow> string \<Rightarrow> re_match option" where
  "search_from fl r pre [] =
     (case rmatch fl r [] of
        [] \<Rightarrow> None
      | (rest, cs) # _ \<Rightarrow> Some \<lparr>m_pre = pre, m_groups = cs, m_post = rest\<rparr>)"
| "search_from fl r pre (x # xs) =
     (case rmatch fl r (x # xs) of
        [] \<Rightarrow> search_from fl r (pre @ [x]) xs
      | (rest, cs) # _ \<Rightarrow> Some \<lparr>m_pre = pre, m_groups = cs, m_post = rest\<rparr>)"

definition re_search :: "flags \<Rightarrow> regex \<Rightarrow> string \<Rightarrow> re_match option" where
  "re_search fl r s = search_from fl r [] s"

text \<open>\<open>m.group(n)\<close>: the last capture of group \<open>n\<close>.\<close>

definition group :: "re_match \<Rightarrow> nat \<Rightarrow> string option" where
  "group m n = map_of (rev (m_groups m)) n"

text \<open>
  \<open>re.sub(pattern, '', s)\<close>: every non-overlapping match, leftmost first, is removed.
  The branch of an empty match keeps the character after it and goes on; the pattern of
  the parser matches no empty text.
\<close>

function re_sub_empty :: "flags \<Rightarrow> regex \<Rightarrow> string \<Rightarrow> string" where
  "re_sub_empty fl r s =
     (case re_search fl r s of
        None \<Rightarrow> s
      | Some m \<Rightarrow>
          if length (m_pre m) + length (m_post m) < length s
          then m_pre m @ re_sub_empty fl r (m_post m)
          else (case m_post m of
                  [] \<Rightarrow> m_pre m
                | c # cs \<Rightarrow> if length cs < length s
                            then m_pre m @ c # re_sub_empty fl r cs else s))"
  by pat_completeness auto
termination
  by (relation "measure (\<lambda>(fl, r, s). length s)") auto

declare re_sub_empty.simps [simp del]

section \<open>Visualization spec parser\<close>

text \<open>\<open>\[VIZ_START\](.*?)\[VIZ_END\]\<close> with DOTALL and IGNORECASE.\<close>

definition viz_flags :: flags where
  "viz_flags = \<lparr>ignorecase = True, dotall = True\<rparr>"

definition viz_pattern :: regex where
  "viz_pattern = Cat (lits ''[VIZ_START]'') (Cat (Group 1 (LazyStar Dot)) (lits ''[VIZ_END]''))"

definition known_fields :: "string list" where
  "known_fields = [''chart_type'', ''x_label'', ''y_label'', ''x_axis'', ''y_axis'', ''title'', ''sort'']"

definition required_fields :: "string list" where
  "required_fields = [''chart_type'', ''x_axis'', ''y_axis'']"

text \<open>\<open>{field}\s*:\s*(.+?)(?=\s+(?:{lookahead})\s*:|$)\<close> with IGNORECASE, where the
  lookahead is the alternation of the other known fields.\<close>

definition field_flags :: flags where
  "field_flags = \<lparr>ignorecase = True, dotall = False\<rparr>"

definition field_pattern :: "string \<Rightarrow> regex" where
  "field_pattern field =
     (let other_fields = filter (\<lambda>f. f \<noteq> field) known_fields;
          lookahead = alts (map lits other_fields)
      in Cat (lits field)
        (Cat (Star Space)
        (Cat (Chr CHR '':'')
        (Cat (Star Space)
        (Cat (Group 1 (Cat Dot (LazyStar Dot)))
             (Ahead (Alt (Cat (Cat Space (Star Space))
                              (Cat lookahead (Cat (Star Space) (Chr CHR '':''))))
                         Eos)))))))"

text \<open>The loop over the lines of a block that has a newline.\<close>

definition spec_of_line :: "(string, string) dict \<Rightarrow> string \<Rightarrow> (string, string) dict" where
  "spec_of_line spec line0 =
     (let line = strip line0
      in if CHR '':'' \<in> set line
         then (case split_once CHR '':'' line of
                 (key, val) \<Rightarrow> dict_set (lower (strip key)) (strip val) spec)
         else spec)"

text \<open>The loop over the known fields of a block on one line. Group 1 takes part in every
  match of a field pattern.\<close>

definition spec_of_field :: "string \<Rightarrow> (string, string) dict \<Rightarrow> string \<Rightarrow> (string, string) dict" where
  "spec_of_field viz_block spec field =
     (case re_search field_flags (field_pattern field) viz_block of
        None \<Rightarrow> spec
      | Some field_match \<Rightarrow>
          (case group field_match 1 of
             None \<Rightarrow> spec
           | Some v \<Rightarrow> dict_set field (strip v) spec))"

definition extract_spec :: "string \<Rightarrow> (string, string) dict" where
  "extract_spec viz_block =
     (if newline \<in> set viz_block
      then foldl spec_of_line [] (py_split newline viz_block)
      else foldl (spec_of_field viz_block) [] known_fields)"

text \<open>Group 1 takes part in every match of the block pattern.\<close>

definition parse_viz_spec :: "string \<Rightarrow> (string, string) dict option \<times> string" where
  "parse_viz_spec text =
     (if text = [] then (None, text)
      else (case re_search viz_flags viz_pattern text of
              None \<Rightarrow> (None, text)
            | Some m \<Rightarrow>
                (let viz_block = strip (case group m 1 of None \<Rightarrow> [] | Some g \<Rightarrow> g);
                     spec = extract_spec viz_block
                 in if \<not> (\<forall>field \<in> set required_fields. field \<in> set (keys spec))
                    then (None, text)
                    else (Some spec, strip (re_sub_empty viz_flags viz_pattern text)))))"

section \<open>Chart generator\<close>

text \<open>
  A cell of a data row is \<open>None\<close>, a number or a string. A Python float is modelled as a
  real number. The builtin \<open>float(str)\<close> is a parameter \<open>float_of_str\<close> (\<open>None\<close> is
  its ValueError), and the drawing by matplotlib, from the data a chart method has prepared
  to the base64 image, is a parameter \<open>draw\<close> that can raise.
\<close>

datatype cell = PyNone | PyNum real | PyStr string

datatype chart_kind = Bar | Line | Pie | Scatter | Area

type_synonym drawer =
  "chart_kind \<Rightarrow> cell list \<Rightarrow> real list \<Rightarrow> string \<Rightarrow> string \<Rightarrow> string \<Rightarrow> py_error + string"







text \<open>\<open>paired.sort(key=lambda x: x[1], reverse=...)\<close>: a stable sort by the second
  component; with \<open>reverse=True\<close> it is descending and still keeps the order of equal
  keys, as sorting the reversed list and reversing the result does.\<close>

definition sort_pairs :: "bool \<Rightarrow> ('a \<times> real) list \<Rightarrow> ('a \<times> real) list" where
  "sort_pairs reverse paired =
     (if reverse then rev (sort_key snd (rev paired)) else sort_key snd paired)"


text \<open>The data of the pie chart, as passed to \<open>ax.pie\<close> and to the legend.\<close>

definition pie_slices :: "cell list \<Rightarrow> real list \<Rightarrow> cell list \<times> real list" where
  "pie_slices x_data y_data =
     (let max_slices = 8
      in if length x_data > max_slices
         then (let paired = sort_pairs True (zip x_data y_data);
                   top_items = take (max_slices - 1) paired;
                   other_sum = sum_list (map snd (drop (max_slices - 1) paired))
               in (map fst top_items @ [PyStr ''Other''], map snd top_items @ [other_sum]))
         else (x_data, y_data))"

definition create_pie_chart :: "drawer \<Rightarrow> cell list \<Rightarrow> real list \<Rightarrow> string \<Rightarrow> string \<Rightarrow> string \<Rightarrow> py_error + string" where
  "create_pie_chart draw x_data y_data title x_label y_label =
     (case pie_slices x_data y_data of (xs, ys) \<Rightarrow> draw Pie xs ys title x_label y_label)"





section \<open>Paginated table card\<close>












section \<open>User token manager\<close>

text \<open>
  The MSAL client is the external collaborator: \<open>acquire\<close> is one call of
  \<open>acquire_token_on_behalf_of\<close> with the user assertion, which raises or returns a result
  that may hold an access token and a lifetime. The manager's state is the cache; the
  field \<open>obo_calls\<close> records the assertions sent to the collaborator, in order. The clock
  is read once for the cache check (\<open>now\<close>) and once more when a token is cached
  (\<open>now_cached\<close>).
\<close>

record cached_token =
  token :: string
  expires_at :: real

record obo_result =
  access_token :: "string option"
  expires_in :: "real option"

record UserTokenManager =
  user_tokens :: "(string, cached_token) dict"
  obo_calls :: "string list"

definition exchange_for_databricks_token ::
  "(string \<Rightarrow> py_error + obo_result) \<Rightarrow> real \<Rightarrow> real \<Rightarrow> string \<Rightarrow> string \<Rightarrow>
   UserTokenManager \<Rightarrow> string option \<times> UserTokenManager" where
  "exchange_for_databricks_token acquire now now_cached user_id user_token self =
     (case (case dict_get (user_tokens self) user_id of
              None \<Rightarrow> None
            | Some cached \<Rightarrow> if expires_at cached > now then Some cached else None) of
        Some cached \<Rightarrow> (Some (token cached), self)
      | None \<Rightarrow>
          (let self1 = self\<lparr>obo_calls := obo_calls self @ [user_token]\<rparr>
           in case acquire user_token of
                Inl e \<Rightarrow> (None, self1)
              | Inr result \<Rightarrow>
                  (case access_token result of
                     Some tok \<Rightarrow>
                       (let lifetime = (case expires_in result of None \<Rightarrow> 3600 | Some x \<Rightarrow> x)
                        in (Some tok,
                            self1\<lparr>user_tokens :=
                                    dict_set user_id
                                      \<lparr>token = tok, expires_at = now_cached + lifetime - 60\<rparr>
                                      (user_tokens self1)\<rparr>))
                   | None \<Rightarrow> (None, self1))))"

definition clear_user_token :: "string \<Rightarrow> UserTokenManager \<Rightarrow> UserTokenManager" where
  "clear_user_token user_id self =
     (if user_id \<in> set (keys (user_tokens self))
      then self\<lparr>user_tokens := AList.delete user_id (user_tokens self)\<rparr>
      else self)"

section \<open>Notions used in the statements\<close>

text \<open>The results and the charts that a sequence of puts stores, in order.\<close>

fun stored_results :: "'r put list \<Rightarrow> 'r list" where
  "stored_results [] = []"
| "stored_results (StoreResult r # ps) = r # stored_results ps"
| "stored_results (StoreChart c # ps) = stored_results ps"

fun stored_charts :: "'r put list \<Rightarrow> string list" where
  "stored_charts [] = []"
| "stored_charts (StoreResult r # ps) = stored_charts ps"
| "stored_charts (StoreChart c # ps) = c # stored_charts ps"

text \<open>Of the IDs issued to a sequence of puts, those issued by the result store and those
  issued by the chart store.\<close>

fun result_ids :: "'r put list \<Rightarrow> string list \<Rightarrow> string list" where
  "result_ids (StoreResult r # ps) (i # ids) = i # result_ids ps ids"
| "result_ids (StoreChart c # ps) (i # ids) = result_ids ps ids"
| "result_ids ps ids = []"

fun chart_ids :: "'r put list \<Rightarrow> string list \<Rightarrow> string list" where
  "chart_ids (StoreResult r # ps) (i # ids) = chart_ids ps ids"
| "chart_ids (StoreChart c # ps) (i # ids) = i # chart_ids ps ids"
| "chart_ids ps ids = []"

text \<open>The contents of a store of capacity \<open>cap\<close> after \<open>vs\<close> have been stored.\<close>

definition recent :: "nat \<Rightarrow> (nat \<Rightarrow> string) \<Rightarrow> 'v list \<Rightarrow> (string, 'v) dict" where
  "recent cap id_of vs =
     drop (length vs - cap) (zip (map (\<lambda>k. id_of (Suc k)) [0..<length vs]) vs)"

text \<open>The state of the two stores after the results \<open>rs\<close> and the charts \<open>cs\<close>.\<close>

definition stores_hold :: "'r GenieBot \<Rightarrow> 'r list \<Rightarrow> string list \<Rightarrow> bool" where
  "stores_hold self rs cs =
     (query_results self = recent 50 result_id_of rs \<and> result_counter self = length rs \<and>
      chart_images self = recent 100 chart_id_of cs \<and> chart_counter self = length cs)"

text \<open>The suffixes of a text, longest first: the positions a lazy \<open>.*?\<close> stops at.\<close>

fun tails :: "'a list \<Rightarrow> 'a list list" where
  "tails [] = [[]]"
| "tails (x # xs) = (x # xs) # tails xs"

text \<open>A text starts with a word, up to the case of the letters.\<close>

fun starts_ci :: "string \<Rightarrow> string \<Rightarrow> bool" where
  "starts_ci [] s = True"
| "starts_ci (p # ps) [] = False"
| "starts_ci (p # ps) (c # cs) = (lower_char p = lower_char c \<and> starts_ci ps cs)"

text \<open>A word occurs in a text, up to the case of the letters.\<close>

definition occurs_ci :: "string \<Rightarrow> string \<Rightarrow> bool" where
  "occurs_ci w s = list_ex (starts_ci w) (tails s)"

text \<open>A text holds a directive block: a start marker with an end marker after it.\<close>

definition has_block :: "string \<Rightarrow> bool" where
  "has_block s =
     list_ex (\<lambda>t. starts_ci ''[VIZ_START]'' t \<and> occurs_ci ''[VIZ_END]'' (drop 11 t)) (tails s)"

text \<open>The ways the rest of the block pattern matches after the start marker, when the
  lazy group has stopped at the suffix \<open>t\<close> of \<open>body\<close>.\<close>

definition block_end :: "string \<Rightarrow> string \<Rightarrow> (string \<times> caps) list" where
  "block_end body t =
     (if starts_ci ''[VIZ_END]'' t
      then [(drop 9 t, [(1, take (length body - length t) body)])] else [])"

text \<open>Two words are equal up to the case of their letters.\<close>

definition ci_eq :: "string \<Rightarrow> string \<Rightarrow> bool" where
  "ci_eq a b = (lower a = lower b)"

text \<open>A delimited block inside a text: the text before it, the two markers as written,
  and the text between them.\<close>

record block =
  blk_before :: string
  blk_start :: string
  blk_body :: string
  blk_end :: string

definition block_text :: "block \<Rightarrow> string" where
  "block_text k = blk_before k @ blk_start k @ blk_body k @ blk_end k"

text \<open>The block is the first one of a text that begins with \<open>block_text k\<close>: no start marker
  begins before its start marker, and no end marker begins before its end marker.\<close>

definition well_delimited :: "block \<Rightarrow> bool" where
  "well_delimited k =
     (ci_eq (blk_start k) ''[VIZ_START]'' \<and> ci_eq (blk_end k) ''[VIZ_END]'' \<and>
      \<not> occurs_ci ''[VIZ_START]'' (blk_before k @ butlast (blk_start k)) \<and>
      \<not> occurs_ci ''[VIZ_END]'' (blk_body k @ butlast (blk_end k)))"

section \<open>Inputs and collaborators of the examples\<close>

text \<open>Fifty-one results and one chart.\<close>

definition puts51 :: "nat put list" where
  "puts51 = map StoreResult [0..<51] @ [StoreChart ''png'']"

text \<open>An exchange that raises, one that returns no access token, and one that succeeds.\<close>

definition acquire_raises :: "string \<Rightarrow> py_error + obo_result" where
  "acquire_raises user_assertion = Inl ExternalError"

definition acquire_denied :: "string \<Rightarrow> py_error + obo_result" where
  "acquire_denied user_assertion = Inr \<lparr>access_token = None, expires_in = None\<rparr>"

definition acquire_granted :: "string \<Rightarrow> py_error + obo_result" where
  "acquire_granted user_assertion = Inr \<lparr>access_token = Some ''dbx-token'', expires_in = Some 3600\<rparr>"

text \<open>A cache whose only entry expired at time 100, and an empty cache.\<close>

definition stale_manager :: UserTokenManager where
  "stale_manager = \<lparr>user_tokens = [(''alice'', \<lparr>token = ''old'', expires_at = 100\<rparr>)], obo_calls = []\<rparr>"

definition empty_manager :: UserTokenManager where
  "empty_manager = \<lparr>user_tokens = [], obo_calls = []\<rparr>"

text \<open>The block of the round-trip example, two blocks of one text, and a block without
  \<open>y_axis\<close>.\<close>

definition region_sales_block :: block where
  "region_sales_block =
     \<lparr>blk_before = ''answer '', blk_start = ''[VIZ_START]'',
      blk_body = '' chart_type: bar x_axis: Region y_axis: Sales '', blk_end = ''[VIZ_END]''\<rparr>"

definition first_block :: block where
  "first_block =
     \<lparr>blk_before = ''a '', blk_start = ''[VIZ_START]'',
      blk_body = '' chart_type: bar x_axis: Region y_axis: Sales '', blk_end = ''[VIZ_END]''\<rparr>"

definition second_block :: block where
  "second_block =
     \<lparr>blk_before = '' b '', blk_start = ''[VIZ_START]'',
      blk_body = '' chart_type: pie x_axis: Q y_axis: T '', blk_end = ''[VIZ_END]''\<rparr>"

definition partial_block :: block where
  "partial_block =
     \<lparr>blk_before = ''x '', blk_start = ''[VIZ_START]'',
      blk_body = '' chart_type: bar x_axis: Region '', blk_end = ''[VIZ_END]''\<rparr>"

text \<open>A drawing that succeeds, and a \<open>float\<close> that parses nothing.\<close>

definition draw_ok :: drawer where
  "draw_ok kind x_data y_data title x_label y_label = Inr ''png''"


text \<open>The ten categories and values of the pie example.\<close>

definition ten_categories :: "cell list" where
  "ten_categories = map PyStr [''A'', ''B'', ''C'', ''D'', ''E'', ''F'', ''G'', ''H'', ''I'', ''J'']"

definition ten_values :: "real list" where
  "ten_values = [50, 40, 30, 20, 10, 8, 6, 4, 2, 1]"





section \<open>Artifact stores: properties\<close>

lemma str_nat_nonempty: "str_nat n \<noteq> []"
  by (subst str_nat.simps) simp

lemma digit_char_inj:
  assumes "d < 10" and "e < 10" and "digit_char d = digit_char e"
  shows "d = e"
proof -
  have a: "(of_char (digit_char d) :: nat) = 48 + d"
    and b: "(of_char (digit_char e) :: nat) = 48 + e"
    using assms(1,2) by (simp_all add: digit_char_def)
  have "(of_char (digit_char d) :: nat) = of_char (digit_char e)"
    by (rule arg_cong [OF assms(3)])
  then have "48 + d = 48 + e" unfolding a b .
  then show ?thesis by (rule add_left_imp_eq)
qed

lemma str_nat_inj: "str_nat m = str_nat n \<Longrightarrow> m = n"
proof (induction m arbitrary: n rule: str_nat.induct)
  case (1 m)
  show ?case
  proof (cases "m < 10")
    case m: True
    show ?thesis
    proof (cases "n < 10")
      case True
      with m "1.prems" show ?thesis
        by (simp add: str_nat.simps [of m] str_nat.simps [of n] digit_char_inj)
    next
      case False
      with m "1.prems" str_nat_nonempty [of "n div 10"] show ?thesis
        by (simp add: str_nat.simps [of m] str_nat.simps [of n])
    qed
  next
    case m: False
    show ?thesis
    proof (cases "n < 10")
      case True
      with m "1.prems" str_nat_nonempty [of "m div 10"] show ?thesis
        by (simp add: str_nat.simps [of m] str_nat.simps [of n])
    next
      case False
      with m "1.prems" have e: "str_nat (m div 10) = str_nat (n div 10)"
        and d: "digit_char (m mod 10) = digit_char (n mod 10)"
        by (simp_all add: str_nat.simps [of m] str_nat.simps [of n])
      from "1.IH" [OF m e] have "m div 10 = n div 10" .
      moreover from d have "m mod 10 = n mod 10" by (simp add: digit_char_inj)
      ultimately show ?thesis by (metis div_mult_mod_eq)
    qed
  qed
qed

lemma result_id_of_inj: "result_id_of a = result_id_of b \<longleftrightarrow> a = b"
  by (auto simp: result_id_of_def dest: str_nat_inj)

lemma chart_id_of_inj: "chart_id_of a = chart_id_of b \<longleftrightarrow> a = b"
  by (auto simp: chart_id_of_def dest: str_nat_inj)

lemma result_id_not_chart_id: "result_id_of a \<noteq> chart_id_of b"
  by (simp add: result_id_of_def chart_id_of_def)

lemma chart_id_not_result_id: "chart_id_of a \<noteq> result_id_of b"
  by (simp add: result_id_of_def chart_id_of_def)

lemma update_fresh: "k \<notin> fst ` set d \<Longrightarrow> AList.update k v d = d @ [(k, v)]"
  by (induction d) auto

lemma delete_fresh: "k \<notin> fst ` set d \<Longrightarrow> AList.delete k d = d"
  by (induction d) auto

lemma dict_del_all_take:
  "distinct (map fst d) \<Longrightarrow> dict_del_all (take k (keys d)) d = Inr (drop k d)"
proof (induction d arbitrary: k)
  case Nil
  then show ?case by (simp add: keys_def)
next
  case (Cons p d)
  show ?case
  proof (cases k)
    case 0
    then show ?thesis by (simp add: keys_def)
  next
    case (Suc j)
    from Cons.prems have "fst p \<notin> fst ` set d" and "distinct (map fst d)" by auto
    then have "AList.delete (fst p) (p # d) = d"
      by (cases p) (simp add: delete_fresh)
    with Suc Cons.IH [OF \<open>distinct (map fst d)\<close>, of j] show ?thesis
      by (cases p) (simp add: keys_def dict_del_def)
  qed
qed

lemma keys_recent:
  "map fst (recent cap id_of vs) = map (\<lambda>k. id_of (Suc k)) [length vs - cap..<length vs]"
proof -
  have "map fst (recent cap id_of vs)
        = drop (length vs - cap) (map fst (zip (map (\<lambda>k. id_of (Suc k)) [0..<length vs]) vs))"
    by (simp only: recent_def drop_map)
  also have "map fst (zip (map (\<lambda>k. id_of (Suc k)) [0..<length vs]) vs)
             = map (\<lambda>k. id_of (Suc k)) [0..<length vs]"
    by (rule map_fst_zip) simp
  also have "drop (length vs - cap) (map (\<lambda>k. id_of (Suc k)) [0..<length vs])
             = map (\<lambda>k. id_of (Suc k)) (drop (length vs - cap) [0..<length vs])"
    by (rule drop_map)
  also have "drop (length vs - cap) [0..<length vs] = [length vs - cap..<length vs]"
    by (simp only: drop_upt) simp
  finally show ?thesis .
qed

lemma length_recent: "length (recent cap id_of vs) = min (length vs) cap"
proof -
  have "length (recent cap id_of vs) = length vs - (length vs - cap)"
    by (simp add: recent_def)
  then show ?thesis by arith
qed

lemma recent_snoc:
  "recent cap id_of vs @ [(id_of (Suc (length vs)), v)]
   = drop (length vs - cap)
       (zip (map (\<lambda>k. id_of (Suc k)) [0..<length (vs @ [v])]) (vs @ [v]))"
proof -
  have "zip (map (\<lambda>k. id_of (Suc k)) [0..<length (vs @ [v])]) (vs @ [v])
        = zip (map (\<lambda>k. id_of (Suc k)) [0..<length vs] @ [id_of (Suc (length vs))]) (vs @ [v])"
    by simp
  also have "\<dots> = zip (map (\<lambda>k. id_of (Suc k)) [0..<length vs]) vs @ [(id_of (Suc (length vs)), v)]"
    by (subst zip_append) simp_all
  finally show ?thesis by (simp add: recent_def)
qed

text \<open>One put on a store of capacity \<open>cap\<close> whose IDs are injective.\<close>

lemma put_step:
  fixes id_of :: "nat \<Rightarrow> string" and vs :: "'v list" and v :: 'v and cap :: nat
  assumes inj: "inj id_of" and cap: "0 < cap"
  defines "d \<equiv> dict_set (id_of (Suc (length vs))) v (recent cap id_of vs)"
  shows "(if length d > cap
          then dict_del_all (all_but_last cap (keys d)) d
          else Inr d) = Inr (recent cap id_of (vs @ [v]))"
proof -
  have fresh: "id_of (Suc (length vs)) \<notin> fst ` set (recent cap id_of vs)"
  proof
    assume "id_of (Suc (length vs)) \<in> fst ` set (recent cap id_of vs)"
    then have "id_of (Suc (length vs)) \<in> set (map fst (recent cap id_of vs))" by simp
    then obtain k where k: "k < length vs" and e: "id_of (Suc (length vs)) = id_of (Suc k)"
      unfolding keys_recent by auto
    from injD [OF inj e] k show False by simp
  qed
  have d1: "d = recent cap id_of vs @ [(id_of (Suc (length vs)), v)]"
    unfolding d_def dict_set_def by (rule update_fresh [OF fresh])
  have d: "d = drop (length vs - cap)
                 (zip (map (\<lambda>k. id_of (Suc k)) [0..<length (vs @ [v])]) (vs @ [v]))"
    unfolding d1 by (rule recent_snoc)
  have len: "length d = min (length vs) cap + 1"
    unfolding d1 by (simp add: length_recent)
  have dist: "distinct (map fst d)"
  proof -
    have "map fst d = map (\<lambda>k. id_of (Suc k)) [length vs - cap..<length vs] @ [id_of (Suc (length vs))]"
      unfolding d1 by (simp add: keys_recent)
    also have "\<dots> = map (\<lambda>k. id_of (Suc k)) [length vs - cap..<Suc (length vs)]" by simp
    finally have m: "map fst d = map (\<lambda>k. id_of (Suc k)) [length vs - cap..<Suc (length vs)]" .
    have "inj_on (\<lambda>k. id_of (Suc k)) (set [length vs - cap..<Suc (length vs)])"
      by (rule inj_onI) (use injD [OF inj] in blast)
    then show ?thesis unfolding m by (simp only: distinct_map distinct_upt simp_thms)
  qed
  show ?thesis
  proof (cases "length d > cap")
    case True
    with len have full: "cap \<le> length vs" by simp
    with len have "length d - cap = 1" by simp
    then have "all_but_last cap (keys d) = take 1 (keys d)"
      by (simp only: all_but_last_def keys_def length_map)
    then have "dict_del_all (all_but_last cap (keys d)) d = Inr (drop 1 d)"
      by (simp only: dict_del_all_take [OF dist])
    also have "drop 1 d = recent cap id_of (vs @ [v])"
      using full cap unfolding d recent_def by (simp add: Suc_diff_le)
    finally show ?thesis using True by simp
  next
    case False
    with len cap have "length vs < cap" by simp
    then have "d = recent cap id_of (vs @ [v])" unfolding d recent_def by simp
    with False show ?thesis by simp
  qed
qed

lemma recent_upt:
  "recent cap id_of vs = drop (length vs - cap) (zip (map id_of [1..<length vs + 1]) vs)"
proof -
  have "map (\<lambda>k. id_of (Suc k)) [0..<length vs] = map id_of (map Suc [0..<length vs])"
    by simp
  also have "map Suc [0..<length vs] = [1..<length vs + 1]"
    by (simp only: map_Suc_upt) simp
  finally show ?thesis by (simp only: recent_def)
qed

lemma map_Suc_upt_ids:
  "map (\<lambda>k. id_of (Suc k)) [0..<n] = map id_of [1..<n + 1]"
proof -
  have "map (\<lambda>k. id_of (Suc k)) [0..<n] = map id_of (map Suc [0..<n])" by simp
  also have "map Suc [0..<n] = [1..<n + 1]" by (simp only: map_Suc_upt) simp
  finally show ?thesis .
qed

lemma distinct_keys_recent:
  assumes "inj id_of"
  shows "distinct (map fst (recent cap id_of vs))"
proof -
  have "inj_on (\<lambda>k. id_of (Suc k)) (set [length vs - cap..<length vs])"
    by (rule inj_onI) (use injD [OF assms] in blast)
  then show ?thesis unfolding keys_recent by (simp only: distinct_map distinct_upt simp_thms)
qed

lemma recent_evicted:
  assumes "inj id_of" and "1 \<le> k" and "k + cap \<le> length vs"
  shows "dict_get (recent cap id_of vs) (id_of k) = None"
proof -
  have "id_of k \<notin> set (map fst (recent cap id_of vs))"
  proof
    assume "id_of k \<in> set (map fst (recent cap id_of vs))"
    then obtain j where j: "length vs - cap \<le> j" and e: "id_of k = id_of (Suc j)"
      unfolding keys_recent by auto
    from injD [OF assms(1) e] j assms(3) show False by simp
  qed
  then show ?thesis by (simp add: dict_get_def map_of_eq_None_iff)
qed

lemma recent_retained:
  assumes "inj id_of" and "1 \<le> k" and "k \<le> length vs" and "length vs < k + cap"
  shows "dict_get (recent cap id_of vs) (id_of k) = Some (vs ! (k - 1))"
proof -
  let ?z = "zip (map (\<lambda>k. id_of (Suc k)) [0..<length vs]) vs"
  have lz: "length ?z = length vs" by simp
  have i: "length vs - cap + (k - 1 - (length vs - cap)) = k - 1" using assms(2,4) by arith
  have "length (recent cap id_of vs) = length vs - (length vs - cap)"
    unfolding recent_def by (simp only: length_drop lz)
  then have "k - 1 - (length vs - cap) < length (recent cap id_of vs)"
    using assms(2,3,4) by arith
  then have "recent cap id_of vs ! (k - 1 - (length vs - cap)) \<in> set (recent cap id_of vs)"
    by (rule nth_mem)
  moreover have "recent cap id_of vs ! (k - 1 - (length vs - cap)) = ?z ! (k - 1)"
    unfolding recent_def using assms(2,3,4) by (simp only: nth_drop lz i) 
  moreover have "?z ! (k - 1) = (id_of k, vs ! (k - 1))"
  proof -
    have k: "k - 1 < length vs" using assms(2,3) by arith
    then have "[0..<length vs] ! (k - 1) = k - 1" by simp
    moreover have "Suc (k - 1) = k" using assms(2) by arith
    ultimately show ?thesis using k by simp
  qed
  ultimately have "(id_of k, vs ! (k - 1)) \<in> set (recent cap id_of vs)" by simp
  with distinct_keys_recent [OF assms(1)] show ?thesis
    unfolding dict_get_def by (rule map_of_is_SomeI)
qed

lemma inj_result_id_of: "inj result_id_of"
  by (rule injI) (simp add: result_id_of_inj)

lemma inj_chart_id_of: "inj chart_id_of"
  by (rule injI) (simp add: chart_id_of_inj)

lemma store_result_step:
  assumes "query_results self = recent 50 result_id_of rs" and "result_counter self = length rs"
  shows "store_result r self =
         Inr (result_id_of (Suc (length rs)),
              self\<lparr>query_results := recent 50 result_id_of (rs @ [r]),
                    result_counter := Suc (length rs)\<rparr>)"
proof -
  define d where "d = dict_set (result_id_of (Suc (length rs))) r (recent 50 result_id_of rs)"
  have step: "(if length d > 50 then dict_del_all (all_but_last 50 (keys d)) d else Inr d)
              = Inr (recent 50 result_id_of (rs @ [r]))"
    unfolding d_def by (rule put_step [OF inj_result_id_of]) simp
  have "store_result r self =
        (if length d > 50
         then (case dict_del_all (all_but_last 50 (keys d)) d of
                 Inl e \<Rightarrow> Inl e
               | Inr d' \<Rightarrow> Inr (result_id_of (Suc (length rs)),
                               self\<lparr>query_results := d', result_counter := Suc (length rs)\<rparr>))
         else Inr (result_id_of (Suc (length rs)),
                   self\<lparr>query_results := d, result_counter := Suc (length rs)\<rparr>))"
    unfolding store_result_def Let_def d_def assms Suc_eq_plus1 by (rule refl)
  also have "\<dots> = Inr (result_id_of (Suc (length rs)),
              self\<lparr>query_results := recent 50 result_id_of (rs @ [r]),
                    result_counter := Suc (length rs)\<rparr>)"
    using step by (cases "length d > 50") simp_all
  finally show ?thesis .
qed

lemma store_chart_step:
  assumes "chart_images self = recent 100 chart_id_of cs" and "chart_counter self = length cs"
  shows "store_chart c self =
         Inr (chart_id_of (Suc (length cs)),
              self\<lparr>chart_images := recent 100 chart_id_of (cs @ [c]),
                    chart_counter := Suc (length cs)\<rparr>)"
proof -
  define d where "d = dict_set (chart_id_of (Suc (length cs))) c (recent 100 chart_id_of cs)"
  have step: "(if length d > 100 then dict_del_all (all_but_last 100 (keys d)) d else Inr d)
              = Inr (recent 100 chart_id_of (cs @ [c]))"
    unfolding d_def by (rule put_step [OF inj_chart_id_of]) simp
  have "store_chart c self =
        (if length d > 100
         then (case dict_del_all (all_but_last 100 (keys d)) d of
                 Inl e \<Rightarrow> Inl e
               | Inr d' \<Rightarrow> Inr (chart_id_of (Suc (length cs)),
                               self\<lparr>chart_images := d', chart_counter := Suc (length cs)\<rparr>))
         else Inr (chart_id_of (Suc (length cs)),
                   self\<lparr>chart_images := d, chart_counter := Suc (length cs)\<rparr>))"
    unfolding store_chart_def Let_def d_def assms Suc_eq_plus1 by (rule refl)
  also have "\<dots> = Inr (chart_id_of (Suc (length cs)),
              self\<lparr>chart_images := recent 100 chart_id_of (cs @ [c]),
                    chart_counter := Suc (length cs)\<rparr>)"
    using step by (cases "length d > 100") simp_all
  finally show ?thesis .
qed

lemma stores_hold_init: "stores_hold GenieBot_init [] []"
  by (simp add: stores_hold_def GenieBot_init_def recent_def)

lemma run_puts_stores:
  assumes "stores_hold self rs cs"
  shows "\<exists>ids self'. run_puts ps self = Inr (ids, self')
           \<and> stores_hold self' (rs @ stored_results ps) (cs @ stored_charts ps)
           \<and> length ids = length ps
           \<and> result_ids ps ids
               = map (\<lambda>k. result_id_of (Suc k)) [length rs..<length rs + length (stored_results ps)]
           \<and> chart_ids ps ids
               = map (\<lambda>k. chart_id_of (Suc k)) [length cs..<length cs + length (stored_charts ps)]
           \<and> distinct ids
           \<and> set ids \<subseteq> (\<lambda>k. result_id_of (Suc k)) ` {length rs..}
                         \<union> (\<lambda>k. chart_id_of (Suc k)) ` {length cs..}"
  using assms
proof (induction ps arbitrary: self rs cs)
  case Nil
  then show ?case by simp
next
  case (Cons p ps)
  show ?case
  proof (cases p)
    case (StoreResult r)
    let ?s1 = "self\<lparr>query_results := recent 50 result_id_of (rs @ [r]),
                     result_counter := Suc (length rs)\<rparr>"
    from Cons.prems have st: "store_result r self = Inr (result_id_of (Suc (length rs)), ?s1)"
      by (intro store_result_step) (simp_all add: stores_hold_def)
    from Cons.prems have "stores_hold ?s1 (rs @ [r]) cs" by (simp add: stores_hold_def)
    from Cons.IH [OF this] obtain ids s2 where
      run: "run_puts ps ?s1 = Inr (ids, s2)"
      and hold: "stores_hold s2 ((rs @ [r]) @ stored_results ps) (cs @ stored_charts ps)"
      and len: "length ids = length ps"
      and rids: "result_ids ps ids = map (\<lambda>k. result_id_of (Suc k))
                    [length (rs @ [r])..<length (rs @ [r]) + length (stored_results ps)]"
      and cids: "chart_ids ps ids = map (\<lambda>k. chart_id_of (Suc k))
                    [length cs..<length cs + length (stored_charts ps)]"
      and dist: "distinct ids"
      and sub: "set ids \<subseteq> (\<lambda>k. result_id_of (Suc k)) ` {length (rs @ [r])..}
                         \<union> (\<lambda>k. chart_id_of (Suc k)) ` {length cs..}"
      by blast
    have new: "result_id_of (Suc (length rs)) \<notin> set ids"
    proof
      assume "result_id_of (Suc (length rs)) \<in> set ids"
      with sub have "result_id_of (Suc (length rs)) \<in> (\<lambda>k. result_id_of (Suc k)) ` {Suc (length rs)..}
                 \<or> result_id_of (Suc (length rs)) \<in> (\<lambda>k. chart_id_of (Suc k)) ` {length cs..}"
        by auto
      then show False by (auto simp: result_id_of_inj result_id_not_chart_id)
    qed
    have upt: "[length rs..<length rs + Suc (length (stored_results ps))]
               = length rs # [Suc (length rs)..<Suc (length rs) + length (stored_results ps)]"
      by (simp add: upt_rec)
    have sub': "set (result_id_of (Suc (length rs)) # ids)
                \<subseteq> (\<lambda>k. result_id_of (Suc k)) ` {length rs..} \<union> (\<lambda>k. chart_id_of (Suc k)) ` {length cs..}"
      using sub by auto
    show ?thesis
      unfolding StoreResult
      apply (rule exI [of _ "result_id_of (Suc (length rs)) # ids"], rule exI [of _ s2])
      using st run hold len rids cids dist new sub' upt by simp
  next
    case (StoreChart c)
    let ?s1 = "self\<lparr>chart_images := recent 100 chart_id_of (cs @ [c]),
                     chart_counter := Suc (length cs)\<rparr>"
    from Cons.prems have st: "store_chart c self = Inr (chart_id_of (Suc (length cs)), ?s1)"
      by (intro store_chart_step) (simp_all add: stores_hold_def)
    from Cons.prems have "stores_hold ?s1 rs (cs @ [c])" by (simp add: stores_hold_def)
    from Cons.IH [OF this] obtain ids s2 where
      run: "run_puts ps ?s1 = Inr (ids, s2)"
      and hold: "stores_hold s2 (rs @ stored_results ps) ((cs @ [c]) @ stored_charts ps)"
      and len: "length ids = length ps"
      and rids: "result_ids ps ids = map (\<lambda>k. result_id_of (Suc k))
                    [length rs..<length rs + length (stored_results ps)]"
      and cids: "chart_ids ps ids = map (\<lambda>k. chart_id_of (Suc k))
                    [length (cs @ [c])..<length (cs @ [c]) + length (stored_charts ps)]"
      and dist: "distinct ids"
      and sub: "set ids \<subseteq> (\<lambda>k. result_id_of (Suc k)) ` {length rs..}
                         \<union> (\<lambda>k. chart_id_of (Suc k)) ` {length (cs @ [c])..}"
      by blast
    have new: "chart_id_of (Suc (length cs)) \<notin> set ids"
    proof
      assume "chart_id_of (Suc (length cs)) \<in> set ids"
      with sub have "chart_id_of (Suc (length cs)) \<in> (\<lambda>k. result_id_of (Suc k)) ` {length rs..}
                 \<or> chart_id_of (Suc (length cs)) \<in> (\<lambda>k. chart_id_of (Suc k)) ` {Suc (length cs)..}"
        by auto
      then show False by (auto simp: chart_id_of_inj chart_id_not_result_id)
    qed
    have upt: "[length cs..<length cs + Suc (length (stored_charts ps))]
               = length cs # [Suc (length cs)..<Suc (length cs) + length (stored_charts ps)]"
      by (simp add: upt_rec)
    have sub': "set (chart_id_of (Suc (length cs)) # ids)
                \<subseteq> (\<lambda>k. result_id_of (Suc k)) ` {length rs..} \<union> (\<lambda>k. chart_id_of (Suc k)) ` {length cs..}"
      using sub by auto
    show ?thesis
      unfolding StoreChart
      apply (rule exI [of _ "chart_id_of (Suc (length cs)) # ids"], rule exI [of _ s2])
      using st run hold len rids cids dist new sub' upt by simp
  qed
qed

lemma stored_results_append: "stored_results (ps @ qs) = stored_results ps @ stored_results qs"
  by (induction ps rule: stored_results.induct) simp_all

lemma stored_charts_append: "stored_charts (ps @ qs) = stored_charts ps @ stored_charts qs"
  by (induction ps rule: stored_charts.induct) simp_all

lemma stored_results_map: "stored_results (map StoreResult xs) = xs"
  by (induction xs) simp_all

lemma stored_charts_map: "stored_charts (map StoreResult xs) = []"
  by (induction xs) simp_all

lemma stored_puts51: "stored_results puts51 = [0..<51]" "stored_charts puts51 = [''png'']"
  by (simp_all add: puts51_def stored_results_append stored_charts_append stored_results_map
      stored_charts_map del: upt_Suc)

text \<open>
  Claim C1. After any sequence of puts from the initial bot, the result store holds the
  last 50 results stored and the chart store the last 100 charts stored, each under the ID
  it was issued and in insertion order; a lookup returns no new state, so reading does not
  reorder a store. \<open>get\<close> on the ID of an entry that has been evicted finds nothing, and
  on the ID of a retained entry it finds that entry. No put raises.
\<close>

theorem store_keeps_most_recent:
  "\<exists>ids self. run_puts ps GenieBot_init = Inr (ids, self)
     \<and> query_results self
         = drop (length (stored_results ps) - 50)
             (zip (map result_id_of [1..<length (stored_results ps) + 1]) (stored_results ps))
     \<and> chart_images self
         = drop (length (stored_charts ps) - 100)
             (zip (map chart_id_of [1..<length (stored_charts ps) + 1]) (stored_charts ps))
     \<and> (\<forall>k. 1 \<le> k \<and> k + 50 \<le> length (stored_results ps)
            \<longrightarrow> get_result self (result_id_of k) = None)
     \<and> (\<forall>k. 1 \<le> k \<and> k + 100 \<le> length (stored_charts ps)
            \<longrightarrow> get_chart self (chart_id_of k) = None)
     \<and> (\<forall>k. 1 \<le> k \<and> k \<le> length (stored_results ps) \<and> length (stored_results ps) < k + 50
            \<longrightarrow> get_result self (result_id_of k) = Some (stored_results ps ! (k - 1)))
     \<and> (\<forall>k. 1 \<le> k \<and> k \<le> length (stored_charts ps) \<and> length (stored_charts ps) < k + 100
            \<longrightarrow> get_chart self (chart_id_of k) = Some (stored_charts ps ! (k - 1)))"
proof -
  from run_puts_stores [OF stores_hold_init, of ps] obtain ids self where
    run: "run_puts ps GenieBot_init = Inr (ids, self)"
    and hold: "stores_hold self (stored_results ps) (stored_charts ps)"
    by auto
  from hold have q: "query_results self = recent 50 result_id_of (stored_results ps)"
    and c: "chart_images self = recent 100 chart_id_of (stored_charts ps)"
    by (simp_all add: stores_hold_def)
  have "query_results self
         = drop (length (stored_results ps) - 50)
             (zip (map result_id_of [1..<length (stored_results ps) + 1]) (stored_results ps))"
    unfolding q by (rule recent_upt)
  moreover have "chart_images self
         = drop (length (stored_charts ps) - 100)
             (zip (map chart_id_of [1..<length (stored_charts ps) + 1]) (stored_charts ps))"
    unfolding c by (rule recent_upt)
  moreover have "\<forall>k. 1 \<le> k \<and> k + 50 \<le> length (stored_results ps)
            \<longrightarrow> get_result self (result_id_of k) = None"
    unfolding get_result_def q using recent_evicted [OF inj_result_id_of] by blast
  moreover have "\<forall>k. 1 \<le> k \<and> k + 100 \<le> length (stored_charts ps)
            \<longrightarrow> get_chart self (chart_id_of k) = None"
    unfolding get_chart_def c using recent_evicted [OF inj_chart_id_of] by blast
  moreover have "\<forall>k. 1 \<le> k \<and> k \<le> length (stored_results ps) \<and> length (stored_results ps) < k + 50
            \<longrightarrow> get_result self (result_id_of k) = Some (stored_results ps ! (k - 1))"
    unfolding get_result_def q using recent_retained [OF inj_result_id_of] by blast
  moreover have "\<forall>k. 1 \<le> k \<and> k \<le> length (stored_charts ps) \<and> length (stored_charts ps) < k + 100
            \<longrightarrow> get_chart self (chart_id_of k) = Some (stored_charts ps ! (k - 1))"
    unfolding get_chart_def c using recent_retained [OF inj_chart_id_of] by blast
  ultimately show ?thesis using run by blast
qed

theorem store_keeps_most_recent_witness:
  "\<exists>ids self. run_puts puts51 GenieBot_init = Inr (ids, self)
     \<and> length (query_results self) = 50
     \<and> get_result self (result_id_of 1) = None
     \<and> get_result self (result_id_of 2) = Some 1
     \<and> get_chart self (chart_id_of 1) = Some ''png''"
proof -
  from store_keeps_most_recent [of puts51] obtain ids self where
    run: "run_puts puts51 GenieBot_init = Inr (ids, self)"
    and q: "query_results self
         = drop (length (stored_results puts51) - 50)
             (zip (map result_id_of [1..<length (stored_results puts51) + 1]) (stored_results puts51))"
    and ev: "\<forall>k. 1 \<le> k \<and> k + 50 \<le> length (stored_results puts51)
            \<longrightarrow> get_result self (result_id_of k) = None"
    and kept: "\<forall>k. 1 \<le> k \<and> k \<le> length (stored_results puts51) \<and> length (stored_results puts51) < k + 50
            \<longrightarrow> get_result self (result_id_of k) = Some (stored_results puts51 ! (k - 1))"
    and keptc: "\<forall>k. 1 \<le> k \<and> k \<le> length (stored_charts puts51) \<and> length (stored_charts puts51) < k + 100
            \<longrightarrow> get_chart self (chart_id_of k) = Some (stored_charts puts51 ! (k - 1))"
    by blast
  have l: "length (stored_results puts51) = 51" by (simp add: stored_puts51 del: upt_Suc)
  have "length (query_results self) = 50" using l by (simp add: q del: upt_Suc)
  moreover from ev [rule_format, of 1] l have "get_result self (result_id_of 1) = None" by simp
  moreover from kept [rule_format, of 2] l have "get_result self (result_id_of 2) = Some 1"
    by (simp add: stored_puts51 del: upt_Suc)
  moreover from keptc [rule_format, of 1] have "get_chart self (chart_id_of 1) = Some ''png''"
    by (simp add: stored_puts51)
  ultimately show ?thesis using run by blast
qed

text \<open>
  Claim C2. In any sequence of puts from the initial bot, the k-th put on the result store
  is issued \<open>result_k\<close> and the k-th put on the chart store \<open>chart_k\<close>: the numbers
  issued by a store are 1, 2, 3, ... in this order, whether or not earlier entries have been
  evicted. The IDs of different numbers differ, so all IDs issued are distinct.
\<close>

theorem issued_ids_never_repeat:
  "\<exists>ids self. run_puts ps GenieBot_init = Inr (ids, self)
     \<and> length ids = length ps
     \<and> result_ids ps ids = map result_id_of [1..<length (stored_results ps) + 1]
     \<and> chart_ids ps ids = map chart_id_of [1..<length (stored_charts ps) + 1]
     \<and> distinct ids
     \<and> result_counter self = length (stored_results ps)
     \<and> chart_counter self = length (stored_charts ps)
     \<and> (\<forall>a b. result_id_of a = result_id_of b \<longrightarrow> a = b)
     \<and> (\<forall>a b. chart_id_of a = chart_id_of b \<longrightarrow> a = b)
     \<and> (\<forall>a b. result_id_of a \<noteq> chart_id_of b)"
proof -
  from run_puts_stores [OF stores_hold_init, of ps] obtain ids self where
    run: "run_puts ps GenieBot_init = Inr (ids, self)"
    and hold: "stores_hold self (stored_results ps) (stored_charts ps)"
    and len: "length ids = length ps"
    and rids: "result_ids ps ids
               = map (\<lambda>k. result_id_of (Suc k)) [0..<length (stored_results ps)]"
    and cids: "chart_ids ps ids
               = map (\<lambda>k. chart_id_of (Suc k)) [0..<length (stored_charts ps)]"
    and dist: "distinct ids"
    by auto
  from hold have "result_counter self = length (stored_results ps)"
    and "chart_counter self = length (stored_charts ps)"
    by (simp_all add: stores_hold_def)
  moreover note run len dist rids [unfolded map_Suc_upt_ids] cids [unfolded map_Suc_upt_ids]
  ultimately show ?thesis
    by (simp add: result_id_of_inj chart_id_of_inj result_id_not_chart_id)
qed

theorem issued_ids_never_repeat_witness:
  "\<exists>ids self. run_puts puts51 GenieBot_init = Inr (ids, self)
     \<and> length ids = 52 \<and> distinct ids
     \<and> result_counter self = 51 \<and> chart_counter self = 1
     \<and> chart_ids puts51 ids = [chart_id_of 1]"
proof -
  from issued_ids_never_repeat [of puts51] obtain ids self where
    "run_puts puts51 GenieBot_init = Inr (ids, self)"
    "length ids = length puts51"
    "chart_ids puts51 ids = map chart_id_of [1..<length (stored_charts puts51) + 1]"
    "distinct ids"
    "result_counter self = length (stored_results puts51)"
    "chart_counter self = length (stored_charts puts51)"
    by blast
  moreover have "length puts51 = 52" by (simp add: puts51_def del: upt_Suc)
  moreover have "map chart_id_of [1..<length (stored_charts puts51) + 1] = [chart_id_of 1]"
    by (simp add: stored_puts51(2))
  moreover have "length (stored_results puts51) = 51" "length (stored_charts puts51) = 1"
    by (simp_all add: stored_puts51 del: upt_Suc)
  ultimately show ?thesis by (simp del: upt_Suc)
qed

section \<open>Token cache: properties\<close>

lemma dict_get_set_same: "dict_get (dict_set k v d) k = Some v"
  by (simp add: dict_get_def dict_set_def update_conv')

lemma exchange_hit:
  assumes "dict_get (user_tokens self) user_id = Some cached" and "now < expires_at cached"
  shows "exchange_for_databricks_token acquire now now_cached user_id user_token self
          = (Some (token cached), self)"
  using assms by (simp add: exchange_for_databricks_token_def)

lemma exchange_miss_success:
  assumes "\<forall>c. dict_get (user_tokens self) user_id = Some c \<longrightarrow> expires_at c \<le> now"
    and "exchange_for_databricks_token acquire now now_cached user_id user_token self = (Some tok, self')"
  shows "obo_calls self' = obo_calls self @ [user_token] \<and>
         (\<exists>c. dict_get (user_tokens self') user_id = Some c \<and> token c = tok)"
  using assms
  by (auto simp: exchange_for_databricks_token_def Let_def dict_get_set_same
      split: option.splits sum.splits if_splits)

text \<open>
  Claim C3. When a call of the exchange that missed the cache has obtained a token, and a
  second call for the same user finds the cached entry with its expiry still in the future,
  the second call returns the cached token and changes neither the cache nor the record of
  external calls: across the two calls the external exchange ran exactly once.
\<close>

theorem exchange_twice_within_ttl:
  assumes miss: "\<forall>c. dict_get (user_tokens self0) user_id = Some c \<longrightarrow> expires_at c \<le> now1"
    and first: "exchange_for_databricks_token acquire1 now1 now1' user_id assertion1 self0 = (Some tok, self1)"
    and cached: "dict_get (user_tokens self1) user_id = Some cached"
    and ttl: "now2 < expires_at cached"
  shows "exchange_for_databricks_token acquire2 now2 now2' user_id assertion2 self1 = (Some tok, self1)
         \<and> obo_calls self1 = obo_calls self0 @ [assertion1]"
proof -
  from exchange_miss_success [OF miss first] cached
  have calls: "obo_calls self1 = obo_calls self0 @ [assertion1]" and tok: "token cached = tok"
    by auto
  from exchange_hit [OF cached ttl] tok calls show ?thesis by simp
qed

theorem exchange_twice_within_ttl_witness:
  "exchange_for_databricks_token acquire_raises 3000 3001 ''alice'' ''assertion''
     (snd (exchange_for_databricks_token acquire_granted 1000 1001 ''alice'' ''assertion'' empty_manager))
   = (Some ''dbx-token'',
      \<lparr>user_tokens = [(''alice'', \<lparr>token = ''dbx-token'', expires_at = 4541\<rparr>)],
       obo_calls = [''assertion'']\<rparr>)"
proof -
  let ?s1 = "\<lparr>user_tokens = [(''alice'', \<lparr>token = ''dbx-token'', expires_at = 4541\<rparr>)],
       obo_calls = [''assertion'']\<rparr>"
  have first: "exchange_for_databricks_token acquire_granted 1000 1001 ''alice'' ''assertion'' empty_manager
      = (Some ''dbx-token'', ?s1)"
    by (simp add: exchange_for_databricks_token_def acquire_granted_def empty_manager_def
        dict_get_def dict_set_def Let_def)
  have miss: "\<forall>c. dict_get (user_tokens empty_manager) ''alice'' = Some c \<longrightarrow> expires_at c \<le> 1000"
    by (simp add: empty_manager_def dict_get_def)
  have cached: "dict_get (user_tokens ?s1) ''alice'' = Some \<lparr>token = ''dbx-token'', expires_at = 4541\<rparr>"
    by (simp add: dict_get_def)
  have ttl: "(3000::real) < expires_at \<lparr>token = ''dbx-token'', expires_at = 4541\<rparr>" by simp
  from exchange_twice_within_ttl [OF miss first cached ttl, of acquire_raises 3001 "''assertion''"]
  show ?thesis by (simp add: first)
qed

text \<open>
  Claim C9 as stated fails: an entry that had already expired is still in the cache after
  the exchange has failed.
\<close>

theorem failed_exchange_leaves_entry_counterexample:
  "fst (exchange_for_databricks_token acquire_raises 200 200 ''alice'' ''assertion'' stale_manager) = None
   \<and> dict_get (user_tokens (snd (exchange_for_databricks_token acquire_raises 200 200 ''alice''
        ''assertion'' stale_manager))) ''alice'' = Some \<lparr>token = ''old'', expires_at = 100\<rparr>"
  by (simp add: exchange_for_databricks_token_def acquire_raises_def stale_manager_def dict_get_def Let_def)

lemma dict_get_delete_same: "dict_get (AList.delete k d) k = None"
  by (simp add: dict_get_def delete_conv')

lemma clear_user_token_removes: "dict_get (user_tokens (clear_user_token user_id self)) user_id = None"
proof (cases "user_id \<in> set (keys (user_tokens self))")
  case True
  then show ?thesis by (simp add: clear_user_token_def dict_get_delete_same)
next
  case False
  then have "map_of (user_tokens self) user_id = None"
    by (simp add: keys_def map_of_eq_None_iff)
  with False show ?thesis by (simp add: clear_user_token_def dict_get_def)
qed

text \<open>
  Claim C9, amended. When no unexpired entry is cached for the user and the external
  exchange raises or returns no access token, the exchange returns \<open>None\<close> and leaves
  the cache as it was, so it adds no entry; \<open>clear_user_token\<close>, which the message handler
  calls after a failed exchange, leaves no entry for the user.
\<close>

theorem failed_exchange_keeps_cache:
  assumes miss: "\<forall>c. dict_get (user_tokens self) user_id = Some c \<longrightarrow> expires_at c \<le> now"
    and fails: "acquire assertion = Inl e \<or> (\<exists>res. acquire assertion = Inr res \<and> access_token res = None)"
    and call: "exchange_for_databricks_token acquire now now_cached user_id assertion self = (r, self')"
  shows "r = None \<and> user_tokens self' = user_tokens self
         \<and> obo_calls self' = obo_calls self @ [assertion]
         \<and> dict_get (user_tokens (clear_user_token user_id self')) user_id = None"
proof -
  have "exchange_for_databricks_token acquire now now_cached user_id assertion self
        = (None, self\<lparr>obo_calls := obo_calls self @ [assertion]\<rparr>)"
    using miss fails
    by (auto simp: exchange_for_databricks_token_def Let_def split: option.splits)
  with call show ?thesis by (auto simp: clear_user_token_removes)
qed

theorem failed_exchange_keeps_cache_witness:
  "exchange_for_databricks_token acquire_denied 200 200 ''alice'' ''assertion'' stale_manager
   = (None, stale_manager\<lparr>obo_calls := [''assertion'']\<rparr>)
   \<and> dict_get (user_tokens (clear_user_token ''alice'' (stale_manager\<lparr>obo_calls := [''assertion'']\<rparr>))) ''alice'' = None"
proof -
  have call: "exchange_for_databricks_token acquire_denied 200 200 ''alice'' ''assertion'' stale_manager
   = (None, stale_manager\<lparr>obo_calls := [''assertion'']\<rparr>)"
    by (simp add: exchange_for_databricks_token_def acquire_denied_def stale_manager_def dict_get_def Let_def)
  have miss: "\<forall>c. dict_get (user_tokens stale_manager) ''alice'' = Some c \<longrightarrow> expires_at c \<le> 200"
    by (simp add: stale_manager_def dict_get_def)
  have fails: "acquire_denied ''assertion'' = Inl ExternalError
      \<or> (\<exists>res. acquire_denied ''assertion'' = Inr res \<and> access_token res = None)"
    by (simp add: acquire_denied_def)
  from failed_exchange_keeps_cache [OF miss fails call] call show ?thesis by simp
qed

section \<open>Visualization spec parser: properties\<close>

lemma rmatch_lits:
  "ignorecase fl \<Longrightarrow>
   rmatch fl (lits w) s = (if starts_ci w s then [(drop (length w) s, [])] else [])"
proof (induction w arbitrary: s)
  case Nil
  then show ?case by (simp add: rmatch.simps)
next
  case (Cons p w)
  then show ?case by (cases s) (simp_all add: rmatch.simps(1,6) chr_eq_def)
qed

lemma rmatch_lazy_dot:
  "dotall fl \<Longrightarrow> rmatch fl (LazyStar Dot) s = map (\<lambda>t. (t, [])) (tails s)"
proof (induction s)
  case Nil
  then show ?case by (subst rmatch.simps(9)) (simp add: rmatch.simps(2))
next
  case (Cons c cs)
  then show ?case by (subst rmatch.simps(9)) (simp add: rmatch.simps(2))
qed

lemma length_markers: "length ''[VIZ_START]'' = 11" "length ''[VIZ_END]'' = 9"
  by simp_all

lemma rmatch_block_body:
  "rmatch viz_flags (Cat (Group 1 (LazyStar Dot)) (lits ''[VIZ_END]'')) body
   = concat (map (block_end body) (tails body))"
proof -
  have i: "ignorecase viz_flags" and d: "dotall viz_flags" by (simp_all add: viz_flags_def)
  have g: "rmatch viz_flags (Group 1 (LazyStar Dot)) body
           = map (\<lambda>t. (t, [(1, take (length body - length t) body)])) (tails body)"
    by (simp add: rmatch.simps(10) rmatch_lazy_dot [OF d] o_def)
  have e: "map (\<lambda>(s2, c2). (s2, [(1, take (length body - length t) body)] @ c2))
             (if starts_ci ''[VIZ_END]'' t then [(drop 9 t, [])] else [])
           = block_end body t" for t
    by (simp add: block_end_def)
  have "rmatch viz_flags (Cat (Group 1 (LazyStar Dot)) (lits ''[VIZ_END]'')) body
        = concat (map (\<lambda>t. map (\<lambda>(s2, c2). (s2, [(1, take (length body - length t) body)] @ c2))
             (if starts_ci ''[VIZ_END]'' t then [(drop 9 t, [])] else [])) (tails body))"
    unfolding rmatch.simps(6) g rmatch_lits [OF i] length_markers by (simp add: o_def)
  then show ?thesis unfolding e .
qed

lemma rmatch_viz_pattern:
  "rmatch viz_flags viz_pattern s
   = (if starts_ci ''[VIZ_START]'' s
      then concat (map (block_end (drop 11 s)) (tails (drop 11 s))) else [])"
proof -
  have i: "ignorecase viz_flags" by (simp add: viz_flags_def)
  show ?thesis
    unfolding viz_pattern_def rmatch.simps(6) [of _ "lits ''[VIZ_START]''"] rmatch_lits [OF i]
      rmatch_block_body length_markers
    by simp
qed

lemma drop_in_tails: "drop j s \<in> set (tails s)"
proof (induction s arbitrary: j)
  case Nil
  then show ?case by simp
next
  case (Cons x xs)
  then show ?case by (cases j) simp_all
qed

lemma tails_are_drops: "t \<in> set (tails s) \<Longrightarrow> \<exists>j\<le>length s. t = drop j s"
proof (induction s)
  case Nil
  then show ?case by simp
next
  case (Cons x xs)
  from Cons.prems have "t = x # xs \<or> t \<in> set (tails xs)" by simp
  then show ?case
  proof
    assume "t = x # xs"
    then have "t = drop 0 (x # xs)" by simp
    then show ?thesis by blast
  next
    assume "t \<in> set (tails xs)"
    from Cons.IH [OF this] obtain j where "j \<le> length xs" and "t = drop j xs" by blast
    then have "Suc j \<le> length (x # xs)" and "t = drop (Suc j) (x # xs)" by simp_all
    then show ?thesis by blast
  qed
qed

lemma starts_ci_append:
  "length w \<le> length u \<Longrightarrow> starts_ci w (u @ v) = starts_ci w u"
proof (induction w u rule: starts_ci.induct)
  case (1 s)
  then show ?case by simp
next
  case (2 p ps)
  then show ?case by simp
next
  case (3 p ps c cs)
  then show ?case by simp
qed

lemma ci_eq_length: "ci_eq s w \<Longrightarrow> length s = length w"
  unfolding ci_eq_def lower_def by (rule map_eq_imp_length_eq)

lemma ci_eq_starts: "ci_eq s w \<Longrightarrow> starts_ci w (s @ x)"
proof (induction w arbitrary: s)
  case Nil
  then show ?case by simp
next
  case (Cons p w)
  then show ?case by (cases s) (simp_all add: ci_eq_def lower_def)
qed

lemma no_marker_before:
  assumes no: "\<not> occurs_ci w (pre @ butlast s)" and len: "length s = length w" and j: "j < length pre"
  shows "\<not> starts_ci w (drop j (pre @ s @ x))"
proof
  assume st: "starts_ci w (drop j (pre @ s @ x))"
  have s: "s \<noteq> []" "w \<noteq> []"
  proof -
    show "w \<noteq> []"
    proof
      assume "w = []"
      then have "starts_ci w (pre @ butlast s)" by simp
      moreover have "pre @ butlast s \<in> set (tails (pre @ butlast s))"
        using drop_in_tails [of 0 "pre @ butlast s"] by simp
      ultimately show False using no by (auto simp: occurs_ci_def list_ex_iff)
    qed
    then show "s \<noteq> []" using len by auto
  qed
  have "drop j (pre @ s @ x) = drop j (pre @ butlast s) @ (last s # x)"
    using j s(1) by (simp add: append_butlast_last_id [symmetric] del: append_butlast_last_id)
  moreover have "length w \<le> length (drop j (pre @ butlast s))"
    using j len s(1) by simp
  ultimately have "starts_ci w (drop j (pre @ butlast s))"
    using st by (simp only: starts_ci_append)
  with drop_in_tails [of j "pre @ butlast s"] no show False
    by (auto simp: occurs_ci_def list_ex_iff)
qed

lemma block_ends_none:
  "(concat (map (block_end body) ts) = []) = (\<forall>t \<in> set ts. \<not> starts_ci ''[VIZ_END]'' t)"
  by (induction ts) (simp_all add: block_end_def)

lemma block_ends_skip:
  assumes "\<forall>j<length b. \<not> starts_ci ''[VIZ_END]'' (drop j (b @ u))"
  shows "concat (map (block_end body) (tails (b @ u))) = concat (map (block_end body) (tails u))"
  using assms
proof (induction b)
  case Nil
  then show ?case by simp
next
  case (Cons x b)
  from Cons.prems have "\<not> starts_ci ''[VIZ_END]'' (drop 0 ((x # b) @ u))" by blast
  then have h: "block_end body (x # b @ u) = []" by (simp add: block_end_def)
  have "\<forall>j<length b. \<not> starts_ci ''[VIZ_END]'' (drop j (b @ u))"
  proof (intro allI impI)
    fix j assume "j < length b"
    then have "Suc j < length (x # b)" by simp
    with Cons.prems have "\<not> starts_ci ''[VIZ_END]'' (drop (Suc j) ((x # b) @ u))" by blast
    then show "\<not> starts_ci ''[VIZ_END]'' (drop j (b @ u))" by simp
  qed
  from Cons.IH [OF this] h show ?case by simp
qed

lemma tails_head: "\<exists>ts. tails s = s # ts"
  by (cases s) simp_all

lemma search_from_found:
  assumes "\<forall>j<length pre. rmatch fl r (drop j (pre @ t)) = []"
    and "rmatch fl r t = (rest, cs) # others"
  shows "search_from fl r acc (pre @ t) = Some \<lparr>m_pre = acc @ pre, m_groups = cs, m_post = rest\<rparr>"
  using assms(1)
proof (induction pre arbitrary: acc)
  case Nil
  with assms(2) show ?case by (cases t) simp_all
next
  case (Cons x pre)
  from Cons.prems have "rmatch fl r (drop 0 ((x # pre) @ t)) = []" by blast
  then have h: "rmatch fl r (x # pre @ t) = []" by simp
  have "\<forall>j<length pre. rmatch fl r (drop j (pre @ t)) = []"
  proof (intro allI impI)
    fix j assume "j < length pre"
    then have "Suc j < length (x # pre)" by simp
    with Cons.prems have "rmatch fl r (drop (Suc j) ((x # pre) @ t)) = []" by blast
    then show "rmatch fl r (drop j (pre @ t)) = []" by simp
  qed
  from Cons.IH [OF this, of "acc @ [x]"] h show ?case by simp
qed

lemma search_from_none:
  "(search_from fl r acc s = None) = (\<forall>t \<in> set (tails s). rmatch fl r t = [])"
proof (induction s arbitrary: acc)
  case Nil
  then show ?case by (simp split: list.splits)
next
  case (Cons x xs)
  then show ?case by (simp split: list.splits)
qed

lemma search_block:
  assumes "well_delimited k"
  shows "re_search viz_flags viz_pattern (block_text k @ rest)
         = Some \<lparr>m_pre = blk_before k, m_groups = [(1, blk_body k)], m_post = rest\<rparr>"
proof -
  from assms have s: "ci_eq (blk_start k) ''[VIZ_START]''" and e: "ci_eq (blk_end k) ''[VIZ_END]''"
    and ns: "\<not> occurs_ci ''[VIZ_START]'' (blk_before k @ butlast (blk_start k))"
    and ne: "\<not> occurs_ci ''[VIZ_END]'' (blk_body k @ butlast (blk_end k))"
    by (simp_all add: well_delimited_def)
  have ls: "length (blk_start k) = 11" and le: "length (blk_end k) = 9"
    using ci_eq_length [OF s] ci_eq_length [OF e] by simp_all
  let ?t = "blk_start k @ blk_body k @ blk_end k @ rest"
  let ?body = "blk_body k @ blk_end k @ rest"
  have before: "\<forall>j<length (blk_before k). rmatch viz_flags viz_pattern (drop j (blk_before k @ ?t)) = []"
  proof (intro allI impI)
    fix j assume "j < length (blk_before k)"
    from no_marker_before [OF ns _ this, of "blk_body k @ blk_end k @ rest"] ls
    have "\<not> starts_ci ''[VIZ_START]'' (drop j (blk_before k @ ?t))" by simp
    then show "rmatch viz_flags viz_pattern (drop j (blk_before k @ ?t)) = []"
      by (simp only: rmatch_viz_pattern if_False)
  qed
  have inside: "\<forall>j<length (blk_body k). \<not> starts_ci ''[VIZ_END]'' (drop j (blk_body k @ blk_end k @ rest))"
  proof (intro allI impI)
    fix j assume "j < length (blk_body k)"
    from no_marker_before [OF ne _ this, of rest] le
    show "\<not> starts_ci ''[VIZ_END]'' (drop j (blk_body k @ blk_end k @ rest))" by simp
  qed
  obtain ts where ts: "tails (blk_end k @ rest) = (blk_end k @ rest) # ts"
    using tails_head by blast
  have st: "starts_ci ''[VIZ_START]'' ?t" by (rule ci_eq_starts [OF s])
  have en: "starts_ci ''[VIZ_END]'' (blk_end k @ rest)" by (rule ci_eq_starts [OF e])
  have d: "drop 11 ?t = ?body" using ls by simp
  have "block_end ?body (blk_end k @ rest) = [(rest, [(1, blk_body k)])]"
    using en le by (simp add: block_end_def)
  then have "concat (map (block_end ?body) (tails ?body))
        = (rest, [(1, blk_body k)]) # concat (map (block_end ?body) ts)"
    unfolding block_ends_skip [OF inside] ts by simp
  then have "rmatch viz_flags viz_pattern ?t
        = (rest, [(1, blk_body k)]) # concat (map (block_end ?body) ts)"
    unfolding rmatch_viz_pattern d using st by simp
  from search_from_found [OF before this, of "[]"] show ?thesis
    by (simp add: re_search_def block_text_def)
qed

lemma search_from_some:
  "search_from fl r acc s = Some m \<Longrightarrow>
   \<exists>t \<in> set (tails s). \<exists>others. rmatch fl r t = (m_post m, m_groups m) # others"
proof (induction s arbitrary: acc)
  case Nil
  then show ?case by (auto split: list.splits)
next
  case (Cons x xs)
  show ?case
  proof (cases "rmatch fl r (x # xs)")
    case Nil
    with Cons.prems have "search_from fl r (acc @ [x]) xs = Some m" by simp
    from Cons.IH [OF this] show ?thesis by auto
  next
    case (Cons p ps)
    with Cons.prems show ?thesis by (cases p) auto
  qed
qed

lemma viz_match_has_group:
  assumes "re_search viz_flags viz_pattern t = Some m"
  shows "\<exists>g. group m 1 = Some g"
proof -
  from search_from_some [OF assms [unfolded re_search_def]] obtain u others
    where "rmatch viz_flags viz_pattern u = (m_post m, m_groups m) # others" by blast
  then have "(m_post m, m_groups m) \<in> set (rmatch viz_flags viz_pattern u)" by simp
  then obtain v where "(m_post m, m_groups m) \<in> set (block_end (drop 11 u) v)"
    unfolding rmatch_viz_pattern by (auto split: if_splits)
  then have "\<exists>g. m_groups m = [(1, g)]"
    by (auto simp: block_end_def split: if_splits)
  then show ?thesis by (auto simp: group_def)
qed

lemma search_no_block:
  assumes "\<not> has_block t"
  shows "re_search viz_flags viz_pattern t = None"
proof -
  have "rmatch viz_flags viz_pattern u = []" if "u \<in> set (tails t)" for u
  proof (cases "starts_ci ''[VIZ_START]'' u")
    case False
    then show ?thesis by (simp only: rmatch_viz_pattern if_False)
  next
    case True
    with assms that have "\<not> occurs_ci ''[VIZ_END]'' (drop 11 u)"
      by (auto simp: has_block_def list_ex_iff)
    then have "concat (map (block_end (drop 11 u)) (tails (drop 11 u))) = []"
      unfolding block_ends_none by (simp add: occurs_ci_def list_ex_iff)
    with True show ?thesis by (simp only: rmatch_viz_pattern if_True)
  qed
  then show ?thesis by (simp add: re_search_def search_from_none)
qed

lemma sub_block:
  assumes "well_delimited k"
  shows "re_sub_empty viz_flags viz_pattern (block_text k @ rest)
         = blk_before k @ re_sub_empty viz_flags viz_pattern rest"
proof -
  from assms have "ci_eq (blk_start k) ''[VIZ_START]''" by (simp add: well_delimited_def)
  from ci_eq_length [OF this] have "length (blk_start k) = 11" by simp
  then have "length (blk_before k) + length rest < length (block_text k @ rest)"
    by (simp add: block_text_def)
  then show ?thesis
    by (subst re_sub_empty.simps) (simp add: search_block [OF assms])
qed

lemma sub_no_block:
  assumes "\<not> has_block t"
  shows "re_sub_empty viz_flags viz_pattern t = t"
  by (subst re_sub_empty.simps) (simp add: search_no_block [OF assms])

lemma sub_blocks:
  assumes "\<forall>k \<in> set ks. well_delimited k" and "\<not> has_block post"
  shows "re_sub_empty viz_flags viz_pattern (concat (map block_text ks) @ post)
         = concat (map blk_before ks) @ post"
  using assms(1)
proof (induction ks)
  case Nil
  then show ?case by (simp add: sub_no_block [OF assms(2)])
next
  case (Cons k ks)
  then have k: "well_delimited k" and ks: "\<forall>k \<in> set ks. well_delimited k" by simp_all
  from sub_block [OF k, of "concat (map block_text ks) @ post"] Cons.IH [OF ks]
  show ?case by simp
qed

lemma parse_blocks:
  assumes wd: "\<forall>k \<in> set (k1 # ks). well_delimited k"
    and post: "\<not> has_block post"
    and req: "\<forall>field \<in> set required_fields. field \<in> set (keys (extract_spec (strip (blk_body k1))))"
  shows "parse_viz_spec (concat (map block_text (k1 # ks)) @ post)
         = (Some (extract_spec (strip (blk_body k1))),
            strip (concat (map blk_before (k1 # ks)) @ post))"
proof -
  let ?text = "concat (map block_text (k1 # ks)) @ post"
  from wd have k1: "well_delimited k1" by simp
  then have "ci_eq (blk_start k1) ''[VIZ_START]''" by (simp add: well_delimited_def)
  from ci_eq_length [OF this] have "blk_start k1 \<noteq> []" by auto
  then have ne: "?text \<noteq> []" by (simp add: block_text_def)
  have "?text = block_text k1 @ (concat (map block_text ks) @ post)" by simp
  then have se: "re_search viz_flags viz_pattern ?text
      = Some \<lparr>m_pre = blk_before k1, m_groups = [(1, blk_body k1)],
              m_post = concat (map block_text ks) @ post\<rparr>"
    by (simp only: search_block [OF k1])
  have g: "group \<lparr>m_pre = blk_before k1, m_groups = [(1, blk_body k1)],
              m_post = concat (map block_text ks) @ post\<rparr> 1 = Some (blk_body k1)"
    by (simp add: group_def)
  show ?thesis
    unfolding parse_viz_spec_def se sub_blocks [OF wd post]
    using ne req g by (simp add: Let_def)
qed

lemma extract_region_sales:
  "extract_spec ''chart_type: bar x_axis: Region y_axis: Sales''
   = [(''chart_type'', ''bar''), (''x_axis'', ''Region''), (''y_axis'', ''Sales'')]"
  by code_simp

lemma strip_region_sales:
  "strip '' chart_type: bar x_axis: Region y_axis: Sales ''
   = ''chart_type: bar x_axis: Region y_axis: Sales''"
  by code_simp

lemma region_sales_required:
  "\<forall>field \<in> set required_fields.
     field \<in> set (keys (extract_spec (strip '' chart_type: bar x_axis: Region y_axis: Sales '')))"
  unfolding strip_region_sales extract_region_sales by (simp add: required_fields_def keys_def)

lemma well_delimited_examples:
  "well_delimited region_sales_block" "well_delimited first_block"
  "well_delimited second_block" "well_delimited partial_block"
  by code_simp+

lemma no_block_examples: "\<not> has_block '' more''" "\<not> has_block '' c''" "\<not> has_block '' y''"
  by code_simp+

text \<open>
  Claim C5. The single-line directive of the round-trip example parses to the spec
  \<open>{chart_type: bar, x_axis: Region, y_axis: Sales}\<close>, and the cleaned text is
  \<open>answer  more\<close>: the block is removed and the text around it is kept.
\<close>

theorem parse_round_trip:
  "parse_viz_spec
     ''answer [VIZ_START] chart_type: bar x_axis: Region y_axis: Sales [VIZ_END] more''
   = (Some [(''chart_type'', ''bar''), (''x_axis'', ''Region''), (''y_axis'', ''Sales'')],
      ''answer  more'')"
proof -
  have wd: "\<forall>k \<in> set [region_sales_block]. well_delimited k"
    by (simp add: well_delimited_examples)
  have req: "\<forall>field \<in> set required_fields.
     field \<in> set (keys (extract_spec (strip (blk_body region_sales_block))))"
    using region_sales_required by (simp add: region_sales_block_def)
  have st: "strip ''answer  more'' = ''answer  more''" by code_simp
  from parse_blocks [OF wd no_block_examples(1) req] show ?thesis
    by (simp add: block_text_def region_sales_block_def strip_region_sales extract_region_sales st)
qed

theorem parse_round_trip_witness:
  "fst (parse_viz_spec
     ''answer [VIZ_START] chart_type: bar x_axis: Region y_axis: Sales [VIZ_END] more'')
   = Some [(''chart_type'', ''bar''), (''x_axis'', ''Region''), (''y_axis'', ''Sales'')]"
  by (simp add: parse_round_trip)

text \<open>
  Claim C4. When the block found in a text gives a spec that lacks one of the required
  fields \<open>chart_type\<close>, \<open>x_axis\<close>, \<open>y_axis\<close>, the parser returns \<open>None\<close> with
  the text it was given. Whenever it returns \<open>None\<close> the text is returned unchanged, and
  a spec that it returns has all three required fields.
\<close>

theorem incomplete_directive_unchanged:
  "(\<forall>m blk field.
      re_search viz_flags viz_pattern text = Some m \<and> group m 1 = Some blk \<and>
      field \<in> set required_fields \<and> field \<notin> set (keys (extract_spec (strip blk)))
      \<longrightarrow> parse_viz_spec text = (None, text))
   \<and> (fst (parse_viz_spec text) = None \<longrightarrow> snd (parse_viz_spec text) = text)
   \<and> (\<forall>spec. fst (parse_viz_spec text) = Some spec
         \<longrightarrow> (\<forall>field \<in> set required_fields. field \<in> set (keys spec)))"
proof (intro conjI allI impI)
  fix m b field
  assume "re_search viz_flags viz_pattern text = Some m \<and> group m 1 = Some b \<and>
      field \<in> set required_fields \<and> field \<notin> set (keys (extract_spec (strip b)))"
  then show "parse_viz_spec text = (None, text)"
    by (auto simp: parse_viz_spec_def Let_def)
next
  assume "fst (parse_viz_spec text) = None"
  then show "snd (parse_viz_spec text) = text"
    by (auto simp: parse_viz_spec_def Let_def split: if_splits option.splits)
next
  fix spec
  assume "fst (parse_viz_spec text) = Some spec"
  then show "\<forall>field \<in> set required_fields. field \<in> set (keys spec)"
    by (auto simp: parse_viz_spec_def Let_def split: if_splits option.splits)
qed

lemma extract_partial:
  "extract_spec (strip '' chart_type: bar x_axis: Region '')
   = [(''chart_type'', ''bar''), (''x_axis'', ''Region'')]"
  by code_simp

theorem incomplete_directive_unchanged_witness:
  "parse_viz_spec ''x [VIZ_START] chart_type: bar x_axis: Region [VIZ_END] y''
   = (None, ''x [VIZ_START] chart_type: bar x_axis: Region [VIZ_END] y'')"
proof -
  let ?text = "''x [VIZ_START] chart_type: bar x_axis: Region [VIZ_END] y''"
  let ?m = "\<lparr>m_pre = ''x '', m_groups = [(1, '' chart_type: bar x_axis: Region '')],
             m_post = '' y''\<rparr>"
  have "re_search viz_flags viz_pattern (block_text partial_block @ '' y'') = Some ?m"
    using search_block [OF well_delimited_examples(4), of "'' y''"]
    by (simp add: partial_block_def)
  then have se: "re_search viz_flags viz_pattern ?text = Some ?m"
    by (simp add: block_text_def partial_block_def)
  have g: "group ?m 1 = Some '' chart_type: bar x_axis: Region ''" by (simp add: group_def)
  have f: "''y_axis'' \<in> set required_fields" by (simp add: required_fields_def)
  have n: "''y_axis'' \<notin> set (keys (extract_spec (strip '' chart_type: bar x_axis: Region '')))"
    unfolding extract_partial by (simp add: keys_def)
  from incomplete_directive_unchanged [of ?text] se g f n show ?thesis by blast
qed

text \<open>
  Claim C10 as stated fails: in a text with two blocks the cleaned text has lost both
  blocks, not only the first.
\<close>

theorem parse_strips_every_block_counterexample:
  "parse_viz_spec
     ''a [VIZ_START] chart_type: bar x_axis: Region y_axis: Sales [VIZ_END] b [VIZ_START] chart_type: pie x_axis: Q y_axis: T [VIZ_END] c''
   = (Some [(''chart_type'', ''bar''), (''x_axis'', ''Region''), (''y_axis'', ''Sales'')],
      ''a  b  c'')
   \<and> ''a  b  c'' \<noteq> strip (''a '' @ '' b [VIZ_START] chart_type: pie x_axis: Q y_axis: T [VIZ_END] c'')"
proof -
  have wd: "\<forall>k \<in> set [first_block, second_block]. well_delimited k"
    by (simp add: well_delimited_examples)
  have req: "\<forall>field \<in> set required_fields.
     field \<in> set (keys (extract_spec (strip (blk_body first_block))))"
    using region_sales_required by (simp add: first_block_def)
  have st: "strip ''a  b  c'' = ''a  b  c''" by code_simp
  have "parse_viz_spec
     ''a [VIZ_START] chart_type: bar x_axis: Region y_axis: Sales [VIZ_END] b [VIZ_START] chart_type: pie x_axis: Q y_axis: T [VIZ_END] c''
   = (Some [(''chart_type'', ''bar''), (''x_axis'', ''Region''), (''y_axis'', ''Sales'')],
      ''a  b  c'')"
    using parse_blocks [OF wd no_block_examples(2) req]
    by (simp add: block_text_def first_block_def second_block_def strip_region_sales
        extract_region_sales st)
  moreover have "strip (''a '' @ '' b [VIZ_START] chart_type: pie x_axis: Q y_axis: T [VIZ_END] c'')
     = ''a  b [VIZ_START] chart_type: pie x_axis: Q y_axis: T [VIZ_END] c''"
    by code_simp
  ultimately show ?thesis by simp
qed

text \<open>
  Claim C10, amended. For a text made of one or more delimited blocks, each the first
  block of what follows the block before it, and of a rest that holds no block: when the
  spec of the first block has the three required fields, the parser returns the spec of
  the first block, and the cleaned text is the text without any of the blocks, stripped
  of the whitespace around it.
\<close>

theorem parse_first_block_strips_all:
  assumes "\<forall>k \<in> set (k1 # ks). well_delimited k"
    and "\<not> has_block post"
    and "\<forall>field \<in> set required_fields. field \<in> set (keys (extract_spec (strip (blk_body k1))))"
  shows "parse_viz_spec (concat (map block_text (k1 # ks)) @ post)
         = (Some (extract_spec (strip (blk_body k1))),
            strip (concat (map blk_before (k1 # ks)) @ post))"
  using assms by (rule parse_blocks)

theorem parse_first_block_strips_all_witness:
  "parse_viz_spec
     ''a [VIZ_START] chart_type: bar x_axis: Region y_axis: Sales [VIZ_END] b [VIZ_START] chart_type: pie x_axis: Q y_axis: T [VIZ_END] c''
   = (Some [(''chart_type'', ''bar''), (''x_axis'', ''Region''), (''y_axis'', ''Sales'')],
      ''a  b  c'')"
proof -
  have wd: "\<forall>k \<in> set [first_block, second_block]. well_delimited k"
    by (simp add: well_delimited_examples)
  have req: "\<forall>field \<in> set required_fields.
     field \<in> set (keys (extract_spec (strip (blk_body first_block))))"
    using region_sales_required by (simp add: first_block_def)
  have st: "strip ''a  b  c'' = ''a  b  c''" by code_simp
  from parse_first_block_strips_all [OF wd no_block_examples(2) req] show ?thesis
    by (simp add: block_text_def first_block_def second_block_def strip_region_sales
        extract_region_sales st)
qed

section \<open>Chart generator: properties\<close>

lemma sorted_desc_10:
  "sort_pairs True (zip [x1, x2, x3, x4, x5, x6, x7, x8, x9, x10] [50, 40, 30, 20, 10, 8, 6, 4, 2, 1])
   = zip [x1, x2, x3, x4, x5, x6, x7, x8, x9, x10] [50, 40, 30, 20, 10, 8, 6, 4, 2, 1::real]"
  by (simp add: sort_pairs_def)

lemma pie_slices_10:
  "pie_slices [x1, x2, x3, x4, x5, x6, x7, x8, x9, x10] [50, 40, 30, 20, 10, 8, 6, 4, 2, 1]
   = ([x1, x2, x3, x4, x5, x6, x7, PyStr ''Other''], [50, 40, 30, 20, 10, 8, 6, 7])"
  unfolding pie_slices_def Let_def sorted_desc_10 by simp

text \<open>
  Claim C7, amended. A pie chart over ten categories with the values
  50, 40, 30, 20, 10, 8, 6, 4, 2, 1 is drawn with eight slices: the seven largest
  categories and a slice \<open>Other\<close> of value 7, the sum of the remaining three.
\<close>

theorem pie_chart_ten_categories:
  "create_pie_chart draw [x1, x2, x3, x4, x5, x6, x7, x8, x9, x10]
     [50, 40, 30, 20, 10, 8, 6, 4, 2, 1] title x_label y_label
   = draw Pie [x1, x2, x3, x4, x5, x6, x7, PyStr ''Other''] [50, 40, 30, 20, 10, 8, 6, 7]
       title x_label y_label"
  by (simp add: create_pie_chart_def pie_slices_10)

theorem pie_chart_ten_categories_witness:
  "create_pie_chart draw_ok ten_categories ten_values ''Sales'' ''Region'' ''Amount'' = Inr ''png''"
  unfolding ten_categories_def ten_values_def list.map
  using pie_chart_ten_categories [of draw_ok "PyStr ''A''" "PyStr ''B''" "PyStr ''C''" "PyStr ''D''"
      "PyStr ''E''" "PyStr ''F''" "PyStr ''G''" "PyStr ''H''" "PyStr ''I''" "PyStr ''J''"
      "''Sales''" "''Region''" "''Amount''"]
  by (simp add: draw_ok_def)

text \<open>
  Claim C7 as stated fails: the chart has neither seven slices nor a slice \<open>Other\<close> of
  value 21.
\<close>

theorem pie_chart_seven_slices_counterexample:
  "\<not> (length (fst (pie_slices ten_categories ten_values)) = 7
       \<and> last (snd (pie_slices ten_categories ten_values)) = 21)"
  unfolding ten_categories_def ten_values_def list.map pie_slices_10 by simp









section \<open>Pagination: properties\<close>









end
